theory Spec2Isabelle
  imports Main
begin

section \<open>Data model\<close>

text \<open>
  The Go struct \<open>BookInfo\<close> of \<open>randfromkjv/main.go\<close>. Go's \<open>int\<close> is modelled
  as HOL \<open>int\<close>: identifiers and line counts are read as mathematical integers, and the
  sums of line counts the selector forms are taken without wrap-around.
\<close>

record BookInfo =
  ID :: int
  Name :: string
  LineCount :: int
  File :: string


section \<open>Selector\<close>









section \<open>Range resolver\<close>

text \<open>
  The scan of \<open>sliceRange\<close>: \<open>scanRange bs i lowID highID start endi\<close> runs the iterations
  over the remaining books \<open>bs\<close>, the first of them at index \<open>i\<close>, and returns the final
  \<open>start\<close> and \<open>end\<close>. Both begin at \<open>-1\<close>. The third test leaves the loop.
\<close>

fun scanRange :: "BookInfo list \<Rightarrow> int \<Rightarrow> int \<Rightarrow> int \<Rightarrow> int \<Rightarrow> int \<Rightarrow> int \<times> int" where
  "scanRange [] i lowID highID start endi = (start, endi)"
| "scanRange (b # bs) i lowID highID start endi =
     (let start' = (if start < 0 \<and> ID b \<ge> lowID then i else start);
          endi' = (if ID b \<le> highID then i else endi)
      in if ID b > highID then (start', endi')
         else scanRange bs (i + 1) lowID highID start' endi')"

text \<open>
  The slice expression \<open>s[lo:hi]\<close>. Go panics unless \<open>0 \<le> lo \<le> hi \<le> cap(s)\<close>; the
  model is \<open>None\<close> unless \<open>0 \<le> lo \<le> hi \<le> len(s)\<close>, so a slice that the model accepts
  is accepted by Go.
\<close>

definition sliceExpr :: "'a list \<Rightarrow> int \<Rightarrow> int \<Rightarrow> 'a list option" where
  "sliceExpr xs lo hi =
     (if 0 \<le> lo \<and> lo \<le> hi \<and> hi \<le> int (length xs)
      then Some (take (nat (hi - lo)) (drop (nat lo) xs)) else None)"

text \<open>\<open>sliceRange\<close> over the catalog \<open>books\<close>; the \<open>nil\<close> result is the empty list.\<close>

definition sliceRange :: "BookInfo list \<Rightarrow> int \<Rightarrow> int \<Rightarrow> BookInfo list option" where
  "sliceRange books lowID highID =
     (case scanRange books 0 lowID highID (- 1) (- 1) of
        (start, endi) \<Rightarrow>
          if start \<ge> 0 \<and> endi \<ge> start then sliceExpr books start (endi + 1) else Some [])"

text \<open>The separator of the labels: a space, the three bytes of the em dash U+2014, a space.\<close>

definition emDashSep :: string where
  "emDashSep = [CHR '' '', CHR 0xE2, CHR 0x80, CHR 0x94, CHR '' '']"

text \<open>
  The body of the loop of \<open>init\<close> that fills \<open>catLabel\<close>, for a category with the bounds
  \<open>lowID\<close> and \<open>highID\<close>. The two index expressions are reached with a non-empty slice.
\<close>

definition labelFor :: "BookInfo list \<Rightarrow> int \<Rightarrow> int \<Rightarrow> string option" where
  "labelFor books lowID highID =
     (case sliceRange books lowID highID of
        None \<Rightarrow> None
      | Some slice \<Rightarrow>
          Some (if length slice = 0 then []
                else if lowID = highID then Name (slice ! 0)
                else Name (slice ! 0) @ emDashSep @ Name (slice ! (length slice - 1))))"

definition categories :: "(string \<times> int \<times> int) list" where
  "categories =
     [(''ot'', 10, 460), (''nt'', 470, 730), (''pentateuch'', 10, 50),
      (''historical'', 60, 190), (''poetic'', 220, 260), (''major'', 290, 340),
      (''minor'', 350, 460), (''gospels'', 470, 500), (''apostolic'', 510, 720),
      (''acts'', 510, 510), (''paul'', 520, 650), (''general'', 660, 720),
      (''revelation'', 730, 730)]"

text \<open>The loop over the categories: \<open>catLabel[c.Key] = ...\<close> for each of them in turn.\<close>

fun buildLabels ::
  "BookInfo list \<Rightarrow> (string \<times> int \<times> int) list \<Rightarrow> (string \<rightharpoonup> string) \<Rightarrow> (string \<rightharpoonup> string) option"
where
  "buildLabels books [] catLabel = Some catLabel"
| "buildLabels books ((key, lowID, highID) # cs) catLabel =
     (case labelFor books lowID highID of
        None \<Rightarrow> None
      | Some l \<Rightarrow> buildLabels books cs (catLabel(key \<mapsto> l)))"

text \<open>The lookup \<open>catLabel[key]\<close> after \<open>init\<close>; \<open>None\<close> when \<open>init\<close> panics or the key is absent.\<close>

definition catLabelOf :: "BookInfo list \<Rightarrow> string \<Rightarrow> string option" where
  "catLabelOf books key =
     (case buildLabels books categories Map.empty of None \<Rightarrow> None | Some catLabel \<Rightarrow> catLabel key)"

section \<open>Strings and numbers of the Go library\<close>

text \<open>
  \<open>cut sep s\<close> is the text before and after the first occurrence of the byte \<open>sep\<close>,
  and \<open>None\<close> when \<open>s\<close> does not contain it.
\<close>

fun cut :: "char \<Rightarrow> string \<Rightarrow> (string \<times> string) option" where
  "cut sep [] = None"
| "cut sep (c # cs) =
     (if c = sep then Some ([], cs)
      else (case cut sep cs of None \<Rightarrow> None | Some (a, b) \<Rightarrow> Some (c # a, b)))"

text \<open>\<open>strings.SplitN(s, sep, 2)\<close> for a separator of one byte: at most two parts.\<close>

definition SplitN2 :: "string \<Rightarrow> char \<Rightarrow> string list" where
  "SplitN2 s sep = (case cut sep s of None \<Rightarrow> [s] | Some (a, b) \<Rightarrow> [a, b])"

text \<open>\<open>strings.Split(s, sep)\<close> for a separator of one byte: one part more than separators.\<close>

fun Split :: "string \<Rightarrow> char \<Rightarrow> string list" where
  "Split [] sep = [[]]"
| "Split (c # cs) sep =
     (if c = sep then [] # Split cs sep
      else (case Split cs sep of [] \<Rightarrow> [[c]] | p # ps \<Rightarrow> (c # p) # ps))"

definition isDigit :: "char \<Rightarrow> bool" where
  "isDigit c = (48 \<le> (of_char c :: nat) \<and> (of_char c :: nat) \<le> 57)"

definition digitVal :: "char \<Rightarrow> int" where
  "digitVal c = int (of_char c) - 48"

definition parseDigits :: "string \<Rightarrow> int" where
  "parseDigits ds = foldl (\<lambda>n c. n * 10 + digitVal c) 0 ds"

text \<open>
  \<open>strconv.Atoi\<close>: an optional sign, then one or more decimal digits and nothing else;
  \<open>None\<close> is a non-nil error (syntax, or a value outside the 64-bit range).
\<close>

definition Atoi :: "string \<Rightarrow> int option" where
  "Atoi s =
     (case s of
        [] \<Rightarrow> None
      | c # rest \<Rightarrow>
          (let ds = (if c = CHR ''-'' \<or> c = CHR ''+'' then rest else s) in
           if ds = [] \<or> \<not> list_all isDigit ds then None
           else (let v = (if c = CHR ''-'' then - parseDigits ds else parseDigits ds) in
                 if - (2 ^ 63) \<le> v \<and> v < 2 ^ 63 then Some v else None)))"

text \<open>The verb \<open>%d\<close> of \<open>fmt\<close>: the decimal digits, after a minus sign when negative.\<close>

function natDigits :: "nat \<Rightarrow> string" where
  "natDigits n =
     (if n < 10 then [char_of (48 + n)]
      else natDigits (n div 10) @ [char_of (48 + n mod 10)])"
  by pat_completeness auto
termination
  by (relation "measure (\<lambda>n. n)") auto

definition Itoa :: "int \<Rightarrow> string" where
  "Itoa i = (if i < 0 then CHR ''-'' # natDigits (nat (- i)) else natDigits (nat i))"

section \<open>Line scanner\<close>

text \<open>
  A \<open>bufio.Scanner\<close> with the default line splitting, over a reader: \<open>pending\<close> holds the
  lines it has still to deliver, \<open>token\<close> the line of the last successful \<open>Scan\<close>,
  \<open>failing\<close> says whether the scan ends with an error (a read error of the reader, or
  a line too long for the buffer) rather than at the end of the input, and \<open>err\<close> is
  what \<open>Err()\<close> reports.
\<close>

record Scanner =
  pending :: "string list"
  token :: string
  failing :: bool
  err :: bool

definition NewScanner :: "string list \<Rightarrow> bool \<Rightarrow> Scanner" where
  "NewScanner ls fails = \<lparr>pending = ls, token = [], failing = fails, err = False\<rparr>"

definition Scan :: "Scanner \<Rightarrow> bool \<times> Scanner" where
  "Scan sc =
     (case pending sc of
        [] \<Rightarrow> (False, sc\<lparr>err := failing sc\<rparr>)
      | t # ts \<Rightarrow> (True, sc\<lparr>pending := ts, token := t\<rparr>))"

definition Text :: "Scanner \<Rightarrow> string" where
  "Text sc = token sc"

definition Err :: "Scanner \<Rightarrow> bool" where
  "Err sc = err sc"

section \<open>Corpus catalog\<close>

text \<open>
  The loop of \<open>init\<close> that builds \<open>books\<close> from the index content, one iteration for
  each line the scanner delivers; each \<open>continue\<close> is a recursive call that leaves
  \<open>books\<close> as it is.
\<close>

function buildBooks :: "Scanner \<Rightarrow> BookInfo list \<Rightarrow> Scanner \<times> BookInfo list" where
  "buildBooks sc books =
     (case Scan sc of
        (False, sc') \<Rightarrow> (sc', books)
      | (True, sc') \<Rightarrow>
          (let parts = Split (Text sc') CHR ''|'' in
           if length parts \<noteq> 3 then buildBooks sc' books
           else (case Atoi (parts ! 0) of
                   None \<Rightarrow> buildBooks sc' books
                 | Some bid \<Rightarrow>
                     (case Atoi (parts ! 2) of
                        None \<Rightarrow> buildBooks sc' books
                      | Some cnt \<Rightarrow>
                          buildBooks sc'
                            (books @ [\<lparr>ID = bid, Name = parts ! 1, LineCount = cnt,
                                       File = Itoa bid @ ''.txt.gz''\<rparr>])))))"
  by pat_completeness auto
termination
  by (relation "measure (\<lambda>(sc, books). length (pending sc))")
     (auto simp: Scan_def split: list.splits)

datatype loadFailure =
    IndexReadError   \<comment> \<open>\<open>log.Fatalf("error reading index content: ...")\<close>\<close>

text \<open>Lines 74 to 98 of \<open>init\<close>: the loop from an empty \<open>books\<close>, then the check of \<open>Err()\<close>.\<close>

definition loadBooks :: "Scanner \<Rightarrow> loadFailure + BookInfo list" where
  "loadBooks sc =
     (case buildBooks sc [] of
        (sc', books) \<Rightarrow> if Err sc' then Inl IndexReadError else Inr books)"

text \<open>
  What the index format asks of a line, in the words of the specification: three
  fields between two bars, of which the first and the third are integers.
\<close>

definition wellFormed :: "string \<Rightarrow> bool" where
  "wellFormed l =
     (case Split l CHR ''|'' of
        [f0, f1, f2] \<Rightarrow> Atoi f0 \<noteq> None \<and> Atoi f2 \<noteq> None
      | _ \<Rightarrow> False)"

definition bookOf :: "string \<Rightarrow> BookInfo" where
  "bookOf l =
     (let parts = Split l CHR ''|''; bid = the (Atoi (parts ! 0)) in
      \<lparr>ID = bid, Name = parts ! 1, LineCount = the (Atoi (parts ! 2)),
       File = Itoa bid @ ''.txt.gz''\<rparr>)"

section \<open>Verse extractor\<close>

text \<open>\<open>for i := 1; i < offset; i++ { if !scanner.Scan() { break } }\<close>\<close>

function skipTo :: "int \<Rightarrow> int \<Rightarrow> Scanner \<Rightarrow> Scanner" where
  "skipTo i offset sc =
     (if i < offset
      then (case Scan sc of (False, sc') \<Rightarrow> sc' | (True, sc') \<Rightarrow> skipTo (i + 1) offset sc')
      else sc)"
  by pat_completeness auto
termination
  by (relation "measure (\<lambda>(i, offset, sc). nat (offset - i))") auto

text \<open>
  The two values the verse loop takes from a line: the token it highlights and the text
  after it. A line that \<open>SplitN\<close> leaves in one part is printed whole, with no token.
\<close>

definition verseFields :: "string \<Rightarrow> string \<times> string" where
  "verseFields line =
     (let parts = SplitN2 line CHR '' '' in
      if length parts = 2 then (parts ! 0, parts ! 1) else ([], line))"

text \<open>What the body of the verse loop prints for a line.\<close>

definition printVerse :: "string \<Rightarrow> string \<Rightarrow> string \<Rightarrow> string" where
  "printVerse prefix suffix line =
     (let parts = SplitN2 line CHR '' '' in
      if length parts = 2
      then prefix @ parts ! 0 @ suffix @ '' '' @ parts ! 1 @ [CHR 0x0A]
      else line @ [CHR 0x0A])"

text \<open>
  \<open>for scanner.Scan() { ... }\<close>: \<open>lines\<close> collects the lines the loop has handled, in
  order.
\<close>

function readVerses :: "Scanner \<Rightarrow> string list \<Rightarrow> Scanner \<times> string list" where
  "readVerses sc lines =
     (case Scan sc of
        (False, sc') \<Rightarrow> (sc', lines)
      | (True, sc') \<Rightarrow> readVerses sc' (lines @ [Text sc']))"
  by pat_completeness auto
termination
  by (relation "measure (\<lambda>(sc, lines). length (pending sc))")
     (auto simp: Scan_def split: list.splits)

text \<open>The header line that is printed between the two loops.\<close>

definition header :: "BookInfo \<Rightarrow> int \<Rightarrow> string \<Rightarrow> string \<Rightarrow> string" where
  "header sel offset prefix suffix =
     Name sel @ '' (line '' @ prefix @ Itoa offset @ suffix @ ''/'' @
     prefix @ Itoa (LineCount sel) @ suffix @ '')'' @ [CHR 0x0A, CHR 0x0A]"

text \<open>
  Lines 230 to 261 of \<open>main\<close>, on the scanner over the decompressed content of the
  selected book: the lines that the verse loop yields, the text written to the standard
  output, and the exit status (1 when \<open>Err()\<close> is not nil at the end).
\<close>

record extraction =
  yielded :: "string list"
  stdout :: string
  exitCode :: int

definition extractVerses :: "BookInfo \<Rightarrow> int \<Rightarrow> string \<Rightarrow> string \<Rightarrow> Scanner \<Rightarrow> extraction" where
  "extractVerses sel offset prefix suffix sc =
     (let sc1 = skipTo 1 offset sc in
      case readVerses sc1 [] of
        (sc2, lines) \<Rightarrow>
          \<lparr>yielded = lines,
           stdout = header sel offset prefix suffix @ concat (map (printVerse prefix suffix) lines),
           exitCode = (if Err sc2 then 1 else 0)\<rparr>)"

text \<open>The naive test of the resolver: the identifier lies in the inclusive interval.\<close>

definition inRange :: "int \<Rightarrow> int \<Rightarrow> BookInfo \<Rightarrow> bool" where
  "inRange lowID highID b = (lowID \<le> ID b \<and> ID b \<le> highID)"

text \<open>
  In the words of the specification: a record is the line split on the first whitespace
  boundary into token and remainder, and \<open>("", line)\<close> when the line has none.
  Whitespace is the space and the control characters tab, line feed, vertical tab, form
  feed and carriage return.
\<close>

definition specWhitespace :: "char \<Rightarrow> bool" where
  "specWhitespace c = (c \<in> set [CHR '' '', CHR 0x09, CHR 0x0A, CHR 0x0B, CHR 0x0C, CHR 0x0D])"

definition specSplitAtWhitespace :: "string \<Rightarrow> string \<times> string" where
  "specSplitAtWhitespace line =
     (if list_ex specWhitespace line
      then (takeWhile (\<lambda>c. \<not> specWhitespace c) line,
            tl (dropWhile (\<lambda>c. \<not> specWhitespace c) line))
      else ([], line))"

section \<open>Example inputs\<close>



definition exampleCatalog :: "BookInfo list" where
  "exampleCatalog =
     [\<lparr>ID = 10, Name = ''Genesis'', LineCount = 1533, File = ''10.txt.gz''\<rparr>,
      \<lparr>ID = 20, Name = ''Exodus'', LineCount = 1213, File = ''20.txt.gz''\<rparr>,
      \<lparr>ID = 60, Name = ''Joshua'', LineCount = 658, File = ''60.txt.gz''\<rparr>]"

definition exampleIndex :: "string list" where
  "exampleIndex = [''10|Genesis|1533'', ''bad'', ''20|Exodus|x'', ''20|Exodus|1213'']"

definition unsortedIndex :: "string list" where
  "unsortedIndex = [''20|Exodus|5'', ''10|Genesis|3'']"


definition tabLine :: string where
  "tabLine = ''1:1'' @ [CHR 0x09] @ ''In''"

definition genesisOnly :: "BookInfo list" where
  "genesisOnly = [\<lparr>ID = 10, Name = ''Genesis'', LineCount = 1533, File = ''10.txt.gz''\<rparr>]"

section \<open>Properties of the selector\<close>























section \<open>Properties of the range resolver\<close>

lemma filter_from_start:
  assumes low: "\<forall>b\<in>set (take s pre). \<not> P b" and high: "\<forall>b\<in>set (drop s pre). P b"
  shows "filter P pre = drop s pre"
proof -
  have "filter P pre = filter P (take s pre @ drop s pre)" by simp
  also have "\<dots> = filter P (take s pre) @ filter P (drop s pre)" by (rule filter_append)
  also have "filter P (take s pre) = []" using low by (simp add: filter_empty_conv)
  also have "filter P (drop s pre) = drop s pre" using high by (simp add: filter_id_conv)
  finally show ?thesis by simp
qed

lemma sorted_ids_from:
  assumes "sorted (map ID xs)" and "s < length xs" and "b \<in> set (drop s xs)"
  shows "ID (xs ! s) \<le> ID b"
proof -
  from assms(3) obtain j where j: "j < length (drop s xs)" "drop s xs ! j = b"
    by (auto simp: in_set_conv_nth)
  then have "s + j < length xs" "xs ! (s + j) = b" by auto
  moreover have "map ID xs ! s \<le> map ID xs ! (s + j)"
    by (rule sorted_nth_mono[OF assms(1)]) (use \<open>s + j < length xs\<close> in auto)
  ultimately show ?thesis using assms(2) by simp
qed

lemma sliceExpr_drop:
  "0 \<le> s \<Longrightarrow> s < int (length pre) \<Longrightarrow>
   sliceExpr (pre @ bs) s (int (length pre) - 1 + 1) = Some (drop (nat s) pre)"
  by (simp add: sliceExpr_def)

lemma scanned_prefix_filter:
  assumes srt: "sorted (map ID pre)" and hi: "\<forall>b\<in>set pre. ID b \<le> highID"
    and s0: "0 \<le> s" and s1: "s < int (length pre)"
    and low: "\<forall>b\<in>set (take (nat s) pre). ID b < lowID"
    and at: "lowID \<le> ID (pre ! nat s)"
  shows "filter (inRange lowID highID) pre = drop (nat s) pre"
proof (rule filter_from_start)
  show "\<forall>b\<in>set (take (nat s) pre). \<not> inRange lowID highID b"
    using low by (auto simp: inRange_def)
  show "\<forall>b\<in>set (drop (nat s) pre). inRange lowID highID b"
  proof
    fix b assume b: "b \<in> set (drop (nat s) pre)"
    have "ID (pre ! nat s) \<le> ID b"
      by (rule sorted_ids_from[OF srt _ b]) (use s0 s1 in auto)
    moreover from b have "b \<in> set pre" by (rule in_set_dropD)
    ultimately show "inRange lowID highID b" using at hi by (auto simp: inRange_def)
  qed
qed

lemma scanRange_sorted:
  assumes "sorted (map ID (pre @ bs))" and "i = int (length pre)"
    and "\<forall>b\<in>set pre. ID b \<le> highID" and "endi = i - 1"
    and "start < 0 \<longrightarrow> (\<forall>b\<in>set pre. ID b < lowID)"
    and "0 \<le> start \<longrightarrow> start < i \<and> (\<forall>b\<in>set (take (nat start) pre). ID b < lowID)
            \<and> lowID \<le> ID (pre ! nat start)"
  shows "(case scanRange bs i lowID highID start endi of
            (s, e) \<Rightarrow> if s \<ge> 0 \<and> e \<ge> s then sliceExpr (pre @ bs) s (e + 1) else Some [])
         = Some (filter (inRange lowID highID) (pre @ bs))"
  using assms
proof (induction bs arbitrary: pre i start endi)
  case Nil
  show ?case
  proof (cases "0 \<le> start")
    case True
    with Nil.prems have st: "start < int (length pre)" "\<forall>b\<in>set (take (nat start) pre). ID b < lowID"
      "lowID \<le> ID (pre ! nat start)" by auto
    have "filter (inRange lowID highID) pre = drop (nat start) pre"
      by (rule scanned_prefix_filter[OF _ _ True st]) (use Nil.prems in auto)
    moreover have "sliceExpr (pre @ []) start (int (length pre) - 1 + 1) = Some (drop (nat start) pre)"
      by (rule sliceExpr_drop[OF True st(1)])
    ultimately show ?thesis using True st(1) Nil.prems(2,4) by simp
  next
    case False
    with Nil.prems have "\<forall>b\<in>set pre. ID b < lowID" by auto
    then have "filter (inRange lowID highID) pre = []"
      by (auto simp: filter_empty_conv inRange_def)
    with False show ?thesis by simp
  qed
next
  case (Cons b bs)
  have srt_pre: "sorted (map ID pre)" using Cons.prems(1) by (simp add: sorted_append)
  show ?case
  proof (cases "ID b > highID")
    case True
    have rest: "\<forall>x\<in>set (b # bs). ID x > highID"
      using Cons.prems(1) True by (auto simp: sorted_append)
    then have frest: "filter (inRange lowID highID) (b # bs) = []"
      by (auto simp: filter_empty_conv inRange_def)
    show ?thesis
    proof (cases "0 \<le> start")
      case st: True
      with Cons.prems have st': "start < int (length pre)" "\<forall>b\<in>set (take (nat start) pre). ID b < lowID"
        "lowID \<le> ID (pre ! nat start)" by auto
      have "filter (inRange lowID highID) pre = drop (nat start) pre"
        by (rule scanned_prefix_filter[OF srt_pre Cons.prems(3) st st'])
      moreover have "sliceExpr (pre @ b # bs) start (int (length pre) - 1 + 1) = Some (drop (nat start) pre)"
        by (rule sliceExpr_drop[OF st st'(1)])
      ultimately show ?thesis using True st st'(1) Cons.prems(2,4) frest by simp
    next
      case False
      with Cons.prems have "\<forall>b\<in>set pre. ID b < lowID" by auto
      then have "filter (inRange lowID highID) pre = []"
        by (auto simp: filter_empty_conv inRange_def)
      with False True frest Cons.prems(2,4) show ?thesis by simp
    qed
  next
    case False
    let ?start' = "if start < 0 \<and> ID b \<ge> lowID then i else start"
    have step: "scanRange (b # bs) i lowID highID start endi
                  = scanRange bs (i + 1) lowID highID ?start' i"
      using False by (simp add: Let_def)
    have "(case scanRange bs (i + 1) lowID highID ?start' i of
            (s, e) \<Rightarrow> if s \<ge> 0 \<and> e \<ge> s then sliceExpr ((pre @ [b]) @ bs) s (e + 1) else Some [])
         = Some (filter (inRange lowID highID) ((pre @ [b]) @ bs))"
    proof (rule Cons.IH)
      show "sorted (map ID ((pre @ [b]) @ bs))" using Cons.prems(1) by simp
      show "i + 1 = int (length (pre @ [b]))" using Cons.prems(2) by simp
      show "\<forall>x\<in>set (pre @ [b]). ID x \<le> highID" using Cons.prems(3) False by auto
      show "i = i + 1 - 1" by simp
      show "?start' < 0 \<longrightarrow> (\<forall>x\<in>set (pre @ [b]). ID x < lowID)"
        using Cons.prems(2,5) by auto
      show "0 \<le> ?start' \<longrightarrow> ?start' < i + 1 \<and> (\<forall>x\<in>set (take (nat ?start') (pre @ [b])). ID x < lowID)
            \<and> lowID \<le> ID ((pre @ [b]) ! nat ?start')"
        using Cons.prems(2,5,6) by (auto simp: nth_append)
    qed
    then show ?thesis unfolding step by (simp only: append_assoc append_Cons append_Nil)
  qed
qed

lemma sliceRange_sorted:
  assumes "sorted (map ID books)"
  shows "sliceRange books lowID highID = Some (filter (inRange lowID highID) books)"
proof -
  have "(case scanRange books 0 lowID highID (- 1) (- 1) of
            (s, e) \<Rightarrow> if s \<ge> 0 \<and> e \<ge> s then sliceExpr ([] @ books) s (e + 1) else Some [])
         = Some (filter (inRange lowID highID) ([] @ books))"
    by (rule scanRange_sorted) (use assms in auto)
  then show ?thesis unfolding sliceRange_def append_Nil .
qed

text \<open>
  C2. On a catalog whose identifiers are sorted ascending, \<open>sliceRange\<close> returns, for any
  two bounds, exactly the books whose identifier lies in the inclusive interval, in
  catalog order: the scan that stops at the first identifier above \<open>highID\<close> equals the
  filter of the whole catalog. The result is the empty sequence, and no panic, when no
  identifier lies in the interval, in particular when \<open>lowID\<close> exceeds \<open>highID\<close>.
\<close>
theorem sliceRange_is_interval_filter:
  assumes "sorted (map ID books)"
  shows "sliceRange books lowID highID = Some (filter (inRange lowID highID) books)
       \<and> ((\<forall>b\<in>set books. \<not> inRange lowID highID b) \<longrightarrow> sliceRange books lowID highID = Some [])
       \<and> (highID < lowID \<longrightarrow> sliceRange books lowID highID = Some [])"
proof -
  have eq: "sliceRange books lowID highID = Some (filter (inRange lowID highID) books)"
    by (rule sliceRange_sorted[OF assms])
  moreover have "filter (inRange lowID highID) books = []" if "\<forall>b\<in>set books. \<not> inRange lowID highID b"
    using that by (simp add: filter_empty_conv)
  moreover have "filter (inRange lowID highID) books = []" if "highID < lowID"
    using that by (auto simp: filter_empty_conv inRange_def)
  ultimately show ?thesis by simp
qed

theorem sliceRange_is_interval_filter_witness:
  "sorted (map ID exampleCatalog)
   \<and> sliceRange exampleCatalog 10 50 = Some [exampleCatalog ! 0, exampleCatalog ! 1]
   \<and> filter (inRange 10 50) exampleCatalog = [exampleCatalog ! 0, exampleCatalog ! 1]
   \<and> \<not> inRange 999 999 (exampleCatalog ! 0) \<and> \<not> inRange 999 999 (exampleCatalog ! 1)
   \<and> \<not> inRange 999 999 (exampleCatalog ! 2)
   \<and> sliceRange exampleCatalog 999 999 = Some []
   \<and> sliceRange exampleCatalog 50 10 = Some []"
proof -
  have s: "sorted (map ID exampleCatalog)" by (simp add: exampleCatalog_def)
  have f: "filter (inRange 10 50) exampleCatalog = [exampleCatalog ! 0, exampleCatalog ! 1]"
    by (simp add: exampleCatalog_def inRange_def)
  have n: "\<forall>b\<in>set exampleCatalog. \<not> inRange 999 999 b"
    by (simp add: exampleCatalog_def inRange_def)
  from sliceRange_is_interval_filter[OF s, of 10 50] f
  have 1: "sliceRange exampleCatalog 10 50 = Some [exampleCatalog ! 0, exampleCatalog ! 1]" by simp
  from sliceRange_is_interval_filter[OF s, of 999 999] n
  have 2: "sliceRange exampleCatalog 999 999 = Some []" by blast
  from sliceRange_is_interval_filter[OF s, of 50 10, THEN conjunct2, THEN conjunct2]
  have 3: "sliceRange exampleCatalog 50 10 = Some []" by simp
  have m: "\<not> inRange 999 999 (exampleCatalog ! 0) \<and> \<not> inRange 999 999 (exampleCatalog ! 1)
   \<and> \<not> inRange 999 999 (exampleCatalog ! 2)"
    by (simp add: exampleCatalog_def inRange_def)
  from s f 1 2 3 m show ?thesis by blast
qed

lemma scanRange_end_bound:
  "endi < i + int (length bs) \<Longrightarrow> snd (scanRange bs i lowID highID start endi) < i + int (length bs)"
proof (induction bs arbitrary: i start endi)
  case Nil
  then show ?case by simp
next
  case (Cons b bs)
  show ?case
  proof (cases "ID b > highID")
    case True
    with Cons.prems show ?thesis by (simp add: Let_def)
  next
    case False
    have "snd (scanRange bs (i + 1) lowID highID
                (if start < 0 \<and> ID b \<ge> lowID then i else start) i) < (i + 1) + int (length bs)"
      by (rule Cons.IH) simp
    with False show ?thesis by (simp add: Let_def)
  qed
qed

lemma sliceRange_contiguous:
  "\<exists>start n. sliceRange books lowID highID = Some (take n (drop start books))"
proof -
  obtain s e where se: "scanRange books 0 lowID highID (- 1) (- 1) = (s, e)"
    by (cases "scanRange books 0 lowID highID (- 1) (- 1)")
  have "snd (scanRange books 0 lowID highID (- 1) (- 1)) < 0 + int (length books)"
    by (rule scanRange_end_bound) simp
  with se have e: "e < int (length books)" by simp
  show ?thesis
  proof (cases "s \<ge> 0 \<and> e \<ge> s")
    case True
    with e se have "sliceRange books lowID highID = Some (take (nat (e + 1 - s)) (drop (nat s) books))"
      by (simp add: sliceRange_def sliceExpr_def)
    then show ?thesis by blast
  next
    case False
    with se have "sliceRange books lowID highID = Some (take 0 (drop 0 books))"
      by (auto simp: sliceRange_def)
    then show ?thesis by blast
  qed
qed

text \<open>
  C4, as amended. The label of a category range is decided by its bounds, not by the
  length of the resolved slice: it is the empty string when the slice is empty; the name
  of the first book of the slice when the slice is not empty and \<open>lowID = highID\<close>; and
  the name of the first book, the em-dash separator and the name of the last book when the
  slice is not empty and \<open>lowID \<noteq> highID\<close>, also when the slice has a single book, whose
  name then stands on both sides. On a sorted catalog the slice is the books of the
  interval.
\<close>
theorem label_follows_bounds:
  "\<exists>slice. sliceRange books lowID highID = Some slice
     \<and> (slice = [] \<longrightarrow> labelFor books lowID highID = Some [])
     \<and> (slice \<noteq> [] \<and> lowID = highID \<longrightarrow>
          labelFor books lowID highID = Some (Name (hd slice)))
     \<and> (slice \<noteq> [] \<and> lowID \<noteq> highID \<longrightarrow>
          labelFor books lowID highID = Some (Name (hd slice) @ emDashSep @ Name (last slice)))
     \<and> (sorted (map ID books) \<longrightarrow> slice = filter (inRange lowID highID) books)"
proof -
  obtain slice where s: "sliceRange books lowID highID = Some slice"
    using sliceRange_contiguous[of books lowID highID] by blast
  have "slice = filter (inRange lowID highID) books" if "sorted (map ID books)"
    using sliceRange_sorted[OF that, of lowID highID] s by simp
  moreover have "labelFor books lowID highID = Some []" if "slice = []"
    using that s by (simp add: labelFor_def)
  moreover have "labelFor books lowID highID = Some (Name (hd slice))" if "slice \<noteq> []" "lowID = highID"
    using that s by (simp add: labelFor_def hd_conv_nth)
  moreover have "labelFor books lowID highID = Some (Name (hd slice) @ emDashSep @ Name (last slice))"
    if "slice \<noteq> []" "lowID \<noteq> highID"
    using that s by (simp add: labelFor_def hd_conv_nth last_conv_nth)
  ultimately show ?thesis using s by blast
qed

theorem label_follows_bounds_witness:
  "sorted (map ID exampleCatalog)
   \<and> sliceRange exampleCatalog 10 50 = Some [exampleCatalog ! 0, exampleCatalog ! 1]
   \<and> labelFor exampleCatalog 10 50 = Some (''Genesis'' @ emDashSep @ ''Exodus'')
   \<and> sliceRange exampleCatalog 20 20 = Some [exampleCatalog ! 1]
   \<and> labelFor exampleCatalog 20 20 = Some ''Exodus''
   \<and> sliceRange exampleCatalog 999 999 = Some []
   \<and> labelFor exampleCatalog 999 999 = Some []"
proof -
  have s: "sorted (map ID exampleCatalog)" by (simp add: exampleCatalog_def)
  have f: "filter (inRange 10 50) exampleCatalog = [exampleCatalog ! 0, exampleCatalog ! 1]"
    "filter (inRange 20 20) exampleCatalog = [exampleCatalog ! 1]"
    "filter (inRange 999 999) exampleCatalog = []"
    by (simp_all add: exampleCatalog_def inRange_def)
  from label_follows_bounds[of exampleCatalog 10 50] s f(1)
  have 1: "sliceRange exampleCatalog 10 50 = Some [exampleCatalog ! 0, exampleCatalog ! 1]
     \<and> labelFor exampleCatalog 10 50 = Some (''Genesis'' @ emDashSep @ ''Exodus'')"
    by (auto simp: exampleCatalog_def)
  from label_follows_bounds[of exampleCatalog 20 20] s f(2)
  have 2: "sliceRange exampleCatalog 20 20 = Some [exampleCatalog ! 1]
     \<and> labelFor exampleCatalog 20 20 = Some ''Exodus''"
    by (auto simp: exampleCatalog_def)
  from label_follows_bounds[of exampleCatalog 999 999] s f(3)
  have 3: "sliceRange exampleCatalog 999 999 = Some [] \<and> labelFor exampleCatalog 999 999 = Some []"
    by auto
  from s 1 2 3 show ?thesis by blast
qed

text \<open>
  C4 as stated fails: on a catalog that holds Genesis alone, the range 10 to 50 of the
  category \<open>pentateuch\<close> resolves to a slice of one book, and its label is not the name
  of that book but the name twice around the separator.
\<close>

theorem label_single_book_counterexample:
  "sliceRange genesisOnly 10 50 = Some genesisOnly
   \<and> length genesisOnly = 1
   \<and> labelFor genesisOnly 10 50 = Some (''Genesis'' @ emDashSep @ ''Genesis'')
   \<and> labelFor genesisOnly 10 50 \<noteq> Some (Name (genesisOnly ! 0))
   \<and> catLabelOf genesisOnly ''pentateuch'' = Some (''Genesis'' @ emDashSep @ ''Genesis'')"
proof -
  have 1: "sliceRange genesisOnly 10 50 = Some genesisOnly"
    by (simp add: genesisOnly_def sliceRange_def sliceExpr_def)
  have 2: "labelFor genesisOnly 10 50 = Some (''Genesis'' @ emDashSep @ ''Genesis'')"
    unfolding labelFor_def 1 by (simp add: genesisOnly_def)
  have 3: "labelFor genesisOnly 10 50 \<noteq> Some (Name (genesisOnly ! 0))"
    unfolding 2 by (simp add: genesisOnly_def emDashSep_def)
  have 4: "catLabelOf genesisOnly ''pentateuch'' = Some (''Genesis'' @ emDashSep @ ''Genesis'')"
    by code_simp
  from 1 2 3 4 show ?thesis by (simp add: genesisOnly_def)
qed

section \<open>Properties of the loops over a scanner\<close>

declare skipTo.simps [simp del]
declare readVerses.simps [simp del]
declare buildBooks.simps [simp del]

lemma Scan_Nil: "pending sc = [] \<Longrightarrow> Scan sc = (False, sc\<lparr>err := failing sc\<rparr>)"
  by (simp add: Scan_def)

lemma Scan_Cons: "pending sc = t # ts \<Longrightarrow> Scan sc = (True, sc\<lparr>pending := ts, token := t\<rparr>)"
  by (simp add: Scan_def)

lemma readVerses_result:
  "pending sc = ls \<Longrightarrow>
   snd (readVerses sc acc) = acc @ ls \<and> Err (fst (readVerses sc acc)) = failing sc"
proof (induction ls arbitrary: sc acc)
  case Nil
  then show ?case by (subst (1 2) readVerses.simps) (simp add: Scan_Nil Err_def)
next
  case (Cons t ts)
  let ?sc' = "sc\<lparr>pending := ts, token := t\<rparr>"
  have step: "readVerses sc acc = readVerses ?sc' (acc @ [t])"
    by (subst readVerses.simps) (simp add: Scan_Cons[OF Cons.prems] Text_def)
  have "snd (readVerses ?sc' (acc @ [t])) = (acc @ [t]) @ ts \<and>
        Err (fst (readVerses ?sc' (acc @ [t]))) = failing ?sc'"
    by (rule Cons.IH) simp
  then show ?case unfolding step by simp
qed

lemma skipTo_result:
  "pending (skipTo i offset sc) = drop (nat (offset - i)) (pending sc)
   \<and> failing (skipTo i offset sc) = failing sc"
proof (induction i offset sc rule: skipTo.induct)
  case (1 i offset sc)
  show ?case
  proof (cases "i < offset")
    case False
    then show ?thesis by (subst (1 2) skipTo.simps) simp
  next
    case True
    show ?thesis
    proof (cases "pending sc")
      case Nil
      with True show ?thesis by (subst (1 2) skipTo.simps) (simp add: Scan_Nil)
    next
      case (Cons t ts)
      let ?sc' = "sc\<lparr>pending := ts, token := t\<rparr>"
      have step: "skipTo i offset sc = skipTo (i + 1) offset ?sc'"
        using True by (subst skipTo.simps) (simp add: Scan_Cons[OF Cons])
      have "pending (skipTo (i + 1) offset ?sc') = drop (nat (offset - (i + 1))) (pending ?sc')
            \<and> failing (skipTo (i + 1) offset ?sc') = failing ?sc'"
        by (rule "1.IH"[OF True _ refl]) (simp add: Scan_Cons[OF Cons])
      moreover have "drop (nat (offset - (i + 1))) ts = drop (nat (offset - i)) (t # ts)"
      proof -
        from True have "nat (offset - i) = Suc (nat (offset - (i + 1)))" by simp
        then show ?thesis by simp
      qed
      ultimately show ?thesis unfolding step using Cons by simp
    qed
  qed
qed

lemma extractVerses_result:
  "yielded (extractVerses sel offset prefix suffix sc) = drop (nat (offset - 1)) (pending sc)
   \<and> exitCode (extractVerses sel offset prefix suffix sc) = (if failing sc then 1 else 0)
   \<and> stdout (extractVerses sel offset prefix suffix sc) =
       header sel offset prefix suffix @
       concat (map (printVerse prefix suffix) (drop (nat (offset - 1)) (pending sc)))"
proof -
  let ?sc1 = "skipTo 1 offset sc"
  have p: "pending ?sc1 = drop (nat (offset - 1)) (pending sc)" and f: "failing ?sc1 = failing sc"
    using skipTo_result[of 1 offset sc] by simp_all
  from readVerses_result[OF p, of "[]"] f
  have r: "snd (readVerses ?sc1 []) = drop (nat (offset - 1)) (pending sc)"
    "Err (fst (readVerses ?sc1 [])) = failing sc" by simp_all
  then show ?thesis
    by (simp add: extractVerses_def Let_def case_prod_unfold)
qed

lemma buildBooks_result:
  "pending sc = ls \<Longrightarrow>
   snd (buildBooks sc acc) = acc @ map bookOf (filter wellFormed ls)
   \<and> Err (fst (buildBooks sc acc)) = failing sc"
proof (induction ls arbitrary: sc acc)
  case Nil
  then show ?case by (subst (1 2) buildBooks.simps) (simp add: Scan_Nil Err_def)
next
  case (Cons t ts)
  let ?sc' = "sc\<lparr>pending := ts, token := t\<rparr>"
  have IH: "snd (buildBooks ?sc' acc') = acc' @ map bookOf (filter wellFormed ts)
        \<and> Err (fst (buildBooks ?sc' acc')) = failing sc" for acc'
    using Cons.IH[of ?sc' acc'] by simp
  show ?case
  proof (cases "wellFormed t")
    case True
    then obtain f0 f1 f2 bid cnt where parts: "Split t CHR ''|'' = [f0, f1, f2]"
      and a: "Atoi f0 = Some bid" "Atoi f2 = Some cnt"
      by (auto simp: wellFormed_def split: list.splits)
    have step: "buildBooks sc acc = buildBooks ?sc' (acc @ [bookOf t])"
      by (subst buildBooks.simps)
         (simp add: Scan_Cons[OF Cons.prems] Text_def parts a bookOf_def Let_def)
    show ?thesis unfolding step using IH[of "acc @ [bookOf t]"] True by simp
  next
    case False
    have step: "buildBooks sc acc = buildBooks ?sc' acc"
    proof (cases "length (Split t CHR ''|'') = 3")
      case False
      then show ?thesis
        by (subst buildBooks.simps) (simp add: Scan_Cons[OF Cons.prems] Text_def Let_def)
    next
      case True
      then obtain f0 f1 f2 where parts: "Split t CHR ''|'' = [f0, f1, f2]"
        by (auto simp: length_Suc_conv numeral_3_eq_3)
      with \<open>\<not> wellFormed t\<close> have "Atoi f0 = None \<or> Atoi f2 = None"
        by (simp add: wellFormed_def)
      then show ?thesis
        by (subst buildBooks.simps)
           (auto simp: Scan_Cons[OF Cons.prems] Text_def Let_def parts split: option.splits)
    qed
    show ?thesis unfolding step using IH[of acc] False by simp
  qed
qed

lemma loadBooks_result:
  "loadBooks sc =
     (if failing sc then Inl IndexReadError
      else Inr (map bookOf (filter wellFormed (pending sc))))"
  using buildBooks_result[OF refl, of sc "[]"]
  by (simp add: loadBooks_def case_prod_unfold)

section \<open>Properties of the verse extractor\<close>



lemma cut_first:
  "cut sep s =
     (if sep \<in> set s
      then Some (takeWhile (\<lambda>c. c \<noteq> sep) s, tl (dropWhile (\<lambda>c. c \<noteq> sep) s))
      else None)"
  by (induction s) auto

text \<open>
  C8, as amended. The verse loop splits a line at its first space character (the byte
  0x20), not at any whitespace: a line that contains a space yields the text before the
  first space as the token and the text after it as the remainder, and is printed as
  prefix, token, suffix, space, remainder; a line without a space, whatever other
  whitespace it contains, yields the empty token and the whole line, and is printed as it
  is. The output of the extraction is the header followed by these renderings of the
  yielded lines.
\<close>
theorem verse_split_at_first_space:
  "(CHR '' '' \<in> set line \<longrightarrow>
      verseFields line = (takeWhile (\<lambda>c. c \<noteq> CHR '' '') line,
                          tl (dropWhile (\<lambda>c. c \<noteq> CHR '' '') line))
    \<and> line = fst (verseFields line) @ '' '' @ snd (verseFields line)
    \<and> CHR '' '' \<notin> set (fst (verseFields line))
    \<and> printVerse prefix suffix line =
        prefix @ fst (verseFields line) @ suffix @ '' '' @ snd (verseFields line) @ [CHR 0x0A])
   \<and> (CHR '' '' \<notin> set line \<longrightarrow>
        verseFields line = ([], line) \<and> printVerse prefix suffix line = line @ [CHR 0x0A])
   \<and> stdout (extractVerses sel offset prefix suffix sc) =
       header sel offset prefix suffix @
       concat (map (printVerse prefix suffix) (yielded (extractVerses sel offset prefix suffix sc)))"
proof (intro conjI impI)
  assume sp: "CHR '' '' \<in> set line"
  then show v: "verseFields line = (takeWhile (\<lambda>c. c \<noteq> CHR '' '') line,
                          tl (dropWhile (\<lambda>c. c \<noteq> CHR '' '') line))"
    by (simp add: verseFields_def SplitN2_def cut_first)
  from sp have "dropWhile (\<lambda>c. c \<noteq> CHR '' '') line \<noteq> []" by simp
  moreover have "hd (dropWhile (\<lambda>c. c \<noteq> CHR '' '') line) = CHR '' ''"
    using hd_dropWhile[of "\<lambda>c. c \<noteq> CHR '' ''" line] calculation by simp
  ultimately have "dropWhile (\<lambda>c. c \<noteq> CHR '' '') line
      = CHR '' '' # tl (dropWhile (\<lambda>c. c \<noteq> CHR '' '') line)"
    by (cases "dropWhile (\<lambda>c. c \<noteq> CHR '' '') line") auto
  then have "line = takeWhile (\<lambda>c. c \<noteq> CHR '' '') line @ CHR '' '' # tl (dropWhile (\<lambda>c. c \<noteq> CHR '' '') line)"
    using takeWhile_dropWhile_id[of "\<lambda>c. c \<noteq> CHR '' ''" line] by simp
  then show "line = fst (verseFields line) @ '' '' @ snd (verseFields line)"
    unfolding v by simp
  show "CHR '' '' \<notin> set (fst (verseFields line))"
    unfolding v by (auto dest: set_takeWhileD)
  from sp show "printVerse prefix suffix line =
        prefix @ fst (verseFields line) @ suffix @ '' '' @ snd (verseFields line) @ [CHR 0x0A]"
    unfolding v by (simp add: printVerse_def SplitN2_def cut_first)
next
  assume "CHR '' '' \<notin> set line"
  then show "verseFields line = ([], line)" "printVerse prefix suffix line = line @ [CHR 0x0A]"
    by (simp_all add: verseFields_def printVerse_def SplitN2_def cut_first)
next
  show "stdout (extractVerses sel offset prefix suffix sc) =
       header sel offset prefix suffix @
       concat (map (printVerse prefix suffix) (yielded (extractVerses sel offset prefix suffix sc)))"
    using extractVerses_result[of sel offset prefix suffix sc] by simp
qed

theorem verse_split_at_first_space_witness:
  "CHR '' '' \<in> set ''1:1 In the beginning''
   \<and> verseFields ''1:1 In the beginning'' = (''1:1'', ''In the beginning'')
   \<and> printVerse ''<'' ''>'' ''1:1 In the beginning'' = ''<1:1> In the beginning'' @ [CHR 0x0A]
   \<and> CHR '' '' \<notin> set ''Selah''
   \<and> verseFields ''Selah'' = ([], ''Selah'')
   \<and> printVerse ''<'' ''>'' ''Selah'' = ''Selah'' @ [CHR 0x0A]"
proof -
  have a: "CHR '' '' \<in> set ''1:1 In the beginning''" by simp
  have b: "CHR '' '' \<notin> set ''Selah''" by simp
  note T1 = verse_split_at_first_space[of "''1:1 In the beginning''" "''<''" "''>''", THEN conjunct1, rule_format, OF a]
  note T2 = verse_split_at_first_space[of "''Selah''" "''<''" "''>''", THEN conjunct2, THEN conjunct1, rule_format, OF b]
  from T1 have 1: "verseFields ''1:1 In the beginning'' = (''1:1'', ''In the beginning'')" by simp
  from T1 have 2: "printVerse ''<'' ''>'' ''1:1 In the beginning'' = ''<1:1> In the beginning'' @ [CHR 0x0A]"
    by simp
  from T2 have 3: "verseFields ''Selah'' = ([], ''Selah'')"
    "printVerse ''<'' ''>'' ''Selah'' = ''Selah'' @ [CHR 0x0A]" by simp_all
  from a b 1 2 3 show ?thesis by blast
qed

text \<open>
  C8 as stated fails: a line whose only whitespace is a tab has a whitespace boundary,
  yet the loop does not split it and yields the empty token and the whole line.
\<close>

theorem verse_split_tab_counterexample:
  "specWhitespace (CHR 0x09) \<and> CHR 0x09 \<in> set tabLine
   \<and> specSplitAtWhitespace tabLine = (''1:1'', ''In'')
   \<and> verseFields tabLine = ([], tabLine)
   \<and> verseFields tabLine \<noteq> specSplitAtWhitespace tabLine"
proof -
  have 1: "specWhitespace (CHR 0x09)" "CHR 0x09 \<in> set tabLine"
    by (simp_all add: specWhitespace_def tabLine_def)
  have 2: "specSplitAtWhitespace tabLine = (''1:1'', ''In'')"
    by (simp add: specSplitAtWhitespace_def specWhitespace_def tabLine_def)
  have 3: "verseFields tabLine = ([], tabLine)"
    by (simp add: verseFields_def SplitN2_def tabLine_def)
  have 4: "verseFields tabLine \<noteq> specSplitAtWhitespace tabLine"
    unfolding 2 3 by simp
  from 1 2 3 4 show ?thesis by blast
qed

section \<open>Properties of the catalog\<close>



text \<open>
  C7, as amended. The load keeps the order of the index: the identifiers of the catalog
  are those of the well-formed lines, in input order. So for an index whose well-formed
  lines come in ascending order of identifier the catalog is sorted ascending (gaps and
  repetitions allowed), and every range then resolves to a contiguous slice of the
  catalog that holds exactly the books of the interval. The load neither sorts the books
  nor checks their order.
\<close>
theorem load_keeps_input_order:
  assumes "loadBooks sc = Inr books"
    and "sorted (map (\<lambda>l. ID (bookOf l)) (filter wellFormed (pending sc)))"
  shows "map ID books = map (\<lambda>l. ID (bookOf l)) (filter wellFormed (pending sc))
       \<and> sorted (map ID books)
       \<and> (\<forall>lowID highID. \<exists>start n.
             sliceRange books lowID highID = Some (take n (drop start books))
           \<and> take n (drop start books) = filter (inRange lowID highID) books)"
proof -
  from assms(1) have b: "books = map bookOf (filter wellFormed (pending sc))"
    by (simp add: loadBooks_result split: if_splits)
  then have m: "map ID books = map (\<lambda>l. ID (bookOf l)) (filter wellFormed (pending sc))"
    by simp
  with assms(2) have s: "sorted (map ID books)" by simp
  have "\<exists>start n. sliceRange books lowID highID = Some (take n (drop start books))
           \<and> take n (drop start books) = filter (inRange lowID highID) books" for lowID highID
  proof -
    obtain start n where c: "sliceRange books lowID highID = Some (take n (drop start books))"
      using sliceRange_contiguous[of books lowID highID] by blast
    with sliceRange_sorted[OF s, of lowID highID]
    have "take n (drop start books) = filter (inRange lowID highID) books" by simp
    with c show ?thesis by blast
  qed
  with m s show ?thesis by blast
qed

theorem load_keeps_input_order_witness:
  "loadBooks (NewScanner exampleIndex False) = Inr [exampleCatalog ! 0, exampleCatalog ! 1]
   \<and> filter wellFormed exampleIndex = [exampleIndex ! 0, exampleIndex ! 3]
   \<and> ID (bookOf (exampleIndex ! 0)) = 10 \<and> ID (bookOf (exampleIndex ! 3)) = 20
   \<and> sorted (map ID [exampleCatalog ! 0, exampleCatalog ! 1])
   \<and> sliceRange [exampleCatalog ! 0, exampleCatalog ! 1] 20 50 = Some [exampleCatalog ! 1]"
proof -
  have l: "loadBooks (NewScanner exampleIndex False) = Inr [exampleCatalog ! 0, exampleCatalog ! 1]"
    by code_simp
  have w: "filter wellFormed exampleIndex = [exampleIndex ! 0, exampleIndex ! 3]"
    by code_simp
  have i: "ID (bookOf (exampleIndex ! 0)) = 10" "ID (bookOf (exampleIndex ! 3)) = 20"
    by code_simp+
  have p: "pending (NewScanner exampleIndex False) = exampleIndex" by (simp add: NewScanner_def)
  have s: "sorted (map (\<lambda>l. ID (bookOf l)) (filter wellFormed (pending (NewScanner exampleIndex False))))"
    unfolding p w using i by simp
  note T = load_keeps_input_order[OF l s]
  from T have 1: "sorted (map ID [exampleCatalog ! 0, exampleCatalog ! 1])" by blast
  have f: "filter (inRange 20 50) [exampleCatalog ! 0, exampleCatalog ! 1] = [exampleCatalog ! 1]"
    by (simp add: inRange_def exampleCatalog_def)
  from T obtain start n where
    "sliceRange [exampleCatalog ! 0, exampleCatalog ! 1] 20 50
       = Some (take n (drop start [exampleCatalog ! 0, exampleCatalog ! 1]))"
    "take n (drop start [exampleCatalog ! 0, exampleCatalog ! 1])
       = filter (inRange 20 50) [exampleCatalog ! 0, exampleCatalog ! 1]"
    by blast
  with f have 2: "sliceRange [exampleCatalog ! 0, exampleCatalog ! 1] 20 50 = Some [exampleCatalog ! 1]"
    by simp
  from l w i 1 2 show ?thesis by blast
qed

text \<open>
  C7 as stated fails: an index that lists Exodus (20) before Genesis (10) loads into a
  catalog in that order, which is not sorted, and on it the range 10 to 10 resolves to no
  book although Genesis is in the catalog.
\<close>

theorem load_unsorted_index_counterexample:
  "loadBooks (NewScanner unsortedIndex False) =
     Inr [\<lparr>ID = 20, Name = ''Exodus'', LineCount = 5, File = ''20.txt.gz''\<rparr>,
          \<lparr>ID = 10, Name = ''Genesis'', LineCount = 3, File = ''10.txt.gz''\<rparr>]
   \<and> \<not> sorted (map ID
          [\<lparr>ID = 20, Name = ''Exodus'', LineCount = 5, File = ''20.txt.gz''\<rparr>,
           \<lparr>ID = 10, Name = ''Genesis'', LineCount = 3, File = ''10.txt.gz''\<rparr>])
   \<and> sliceRange
          [\<lparr>ID = 20, Name = ''Exodus'', LineCount = 5, File = ''20.txt.gz''\<rparr>,
           \<lparr>ID = 10, Name = ''Genesis'', LineCount = 3, File = ''10.txt.gz''\<rparr>] 10 10 = Some []"
proof -
  have 1: "loadBooks (NewScanner unsortedIndex False) =
     Inr [\<lparr>ID = 20, Name = ''Exodus'', LineCount = 5, File = ''20.txt.gz''\<rparr>,
          \<lparr>ID = 10, Name = ''Genesis'', LineCount = 3, File = ''10.txt.gz''\<rparr>]"
    by code_simp
  have 2: "\<not> sorted (map ID
          [\<lparr>ID = 20, Name = ''Exodus'', LineCount = 5, File = ''20.txt.gz''\<rparr>,
           \<lparr>ID = 10, Name = ''Genesis'', LineCount = 3, File = ''10.txt.gz''\<rparr>])"
    by simp
  have 3: "sliceRange
          [\<lparr>ID = 20, Name = ''Exodus'', LineCount = 5, File = ''20.txt.gz''\<rparr>,
           \<lparr>ID = 10, Name = ''Genesis'', LineCount = 3, File = ''10.txt.gz''\<rparr>] 10 10 = Some []"
    by (simp add: sliceRange_def)
  from 1 2 3 show ?thesis by blast
qed

end
